theory Spec2Isabelle
  imports Complex_Main "HOL-Library.Multiset"
begin

section \<open>Data model of the occupancy-detection notebook\<close>

text \<open>
  The notebook holds its data in NumPy arrays. A two-dimensional array keeps its shape
  \<open>(number of rows, ncols)\<close> even when it has no row, so the model records the number
  of columns beside the rows. Feature values and labels are the finite numbers read by
  \<^verbatim>\<open>np.loadtxt\<close>, each modelled by the real number it denotes (infinities and NaN
  are outside the model). The arithmetic on them is the machine's, which rounds: it is
  not fixed here but taken as the parameter \<open>float_ops\<close> below.
  The exceptions NumPy raises are values of the type \<open>error\<close>.
\<close>

datatype error = ValueError | IndexError

type_synonym label = real

record ndarray2 =
  ncols :: nat
  rows :: "real list list"

definition wf_array :: "ndarray2 \<Rightarrow> bool" where
  "wf_array x = list_all (\<lambda>r. length r = ncols x) (rows x)"

section \<open>The NumPy operations used by \<^verbatim>\<open>KNN\<close>\<close>

text \<open>
  The floating-point operations of the distance computation: the subtraction, the square
  \<^verbatim>\<open>**2\<close>, the sum \<^verbatim>\<open>np.sum\<close> of one row and \<^verbatim>\<open>np.sqrt\<close>. Their results are rounded
  (a square can underflow to zero, two different sums can round to the same number), so
  the classifier takes them as a parameter. \<open>float_ops_ok\<close> states what the
  properties below need of them, and what the machine operations satisfy on finite
  numbers: \<open>a - a\<close> is zero, and the square of zero, the sum of zeros and the root of
  zero are zero. \<open>exact_ops\<close> is the instance that does not round.
\<close>

record float_ops =
  fl_sub :: "real \<Rightarrow> real \<Rightarrow> real"
  fl_sq :: "real \<Rightarrow> real"
  fl_sum :: "real list \<Rightarrow> real"
  fl_sqrt :: "real \<Rightarrow> real"


definition exact_ops :: float_ops where
  "exact_ops = \<lparr>fl_sub = (\<lambda>a b. a - b), fl_sq = (\<lambda>v. v ^ 2), fl_sum = sum_list, fl_sqrt = sqrt\<rparr>"

text \<open>
  \<^verbatim>\<open>x - x_q\<close> broadcasts the vector \<open>x_q\<close> of length \<open>Dq\<close> against the rows of length
  \<open>D\<close>: the shapes are compatible when the lengths are equal or one of them is 1, and
  NumPy raises \<^verbatim>\<open>ValueError\<close> otherwise.
\<close>

definition broadcast_ok :: "nat \<Rightarrow> nat \<Rightarrow> bool" where
  "broadcast_ok D Dq = (D = Dq \<or> D = 1 \<or> Dq = 1)"

definition sub_row :: "float_ops \<Rightarrow> real list \<Rightarrow> real list \<Rightarrow> real list" where
  "sub_row fl r q =
     (if length r = length q then map2 (\<lambda>a b. fl_sub fl a b) r q
      else if length q = 1 then map (\<lambda>a. fl_sub fl a (q ! 0)) r
      else map (\<lambda>b. fl_sub fl (r ! 0) b) q)"

text \<open>\<^verbatim>\<open>d = np.sqrt(np.sum((x - x_q)**2, axis=1))\<close>\<close>

definition row_distance :: "float_ops \<Rightarrow> real list \<Rightarrow> real list \<Rightarrow> real" where
  "row_distance fl r x_q = fl_sqrt fl (fl_sum fl (map (fl_sq fl) (sub_row fl r x_q)))"

definition distances :: "float_ops \<Rightarrow> ndarray2 \<Rightarrow> real list \<Rightarrow> error + real list" where
  "distances fl x x_q =
     (if broadcast_ok (ncols x) (length x_q)
      then Inr (map (\<lambda>r. row_distance fl r x_q) (rows x))
      else Inl ValueError)"

text \<open>\<^verbatim>\<open>np.unique(y)\<close>: the distinct values of \<open>y\<close> in ascending order.\<close>

definition unique :: "label list \<Rightarrow> label list" where
  "unique y = sort (remdups y)"

text \<open>
  \<^verbatim>\<open>np.argsort(d)\<close> is a library routine; its default algorithm is not stable, so the
  order it gives to equal distances is not fixed by its contract. The classifier takes the
  routine as a parameter; \<open>is_argsort\<close> is the contract (a permutation of the indices
  that lists the distances in ascending order), and \<open>argsort_stable\<close> is the instance
  that keeps equal distances in index order.
\<close>

definition is_argsort :: "(real list \<Rightarrow> nat list) \<Rightarrow> bool" where
  "is_argsort argsort =
     (\<forall>d. mset (argsort d) = mset [0..<length d] \<and> sorted (map (\<lambda>j. d ! j) (argsort d)))"

definition argsort_stable :: "real list \<Rightarrow> nat list" where
  "argsort_stable d = sort_key (\<lambda>j. d ! j) [0..<length d]"

text \<open>
  The slice \<^verbatim>\<open>i[0:K]\<close>: a stop beyond the end is clamped to the end, a negative stop
  counts from the end (and is clamped to 0).
\<close>

definition slice0 :: "int \<Rightarrow> 'a list \<Rightarrow> 'a list" where
  "slice0 K xs =
     (if 0 \<le> K then take (nat K) xs else take (nat (int (length xs) + K)) xs)"

text \<open>
  \<^verbatim>\<open>y[idx]\<close> with an array of indices: \<^verbatim>\<open>IndexError\<close> when an index is out of range
  (the indices here are never negative).
\<close>

definition index_many :: "'a list \<Rightarrow> nat list \<Rightarrow> error + 'a list" where
  "index_many y idx =
     (if list_all (\<lambda>j. j < length y) idx then Inr (map (\<lambda>j. y ! j) idx)
      else Inl IndexError)"

text \<open>
  \<^verbatim>\<open>np.argmax\<close>: the index of the first maximal entry, scanning from the left and
  replacing the best entry only by a strictly greater one; \<^verbatim>\<open>ValueError\<close> on an empty
  array.
\<close>

fun argmax_from :: "nat \<Rightarrow> nat \<Rightarrow> nat \<Rightarrow> nat list \<Rightarrow> nat" where
  "argmax_from bi bv j [] = bi"
| "argmax_from bi bv j (c # cs) =
     (if bv < c then argmax_from j c (Suc j) cs else argmax_from bi bv (Suc j) cs)"

definition argmax :: "nat list \<Rightarrow> error + nat" where
  "argmax cs = (case cs of [] \<Rightarrow> Inl ValueError | c # cs' \<Rightarrow> Inr (argmax_from 0 c 1 cs'))"

section \<open>The classifier\<close>

text \<open>
  \<^verbatim>\<open>
  def KNN(x, y, x_q, K=3):
      target_labels = np.unique(y)
      target_labels_counts = np.zeros(len(target_labels))
      d = np.sqrt(np.sum((x - x_q)**2, axis=1))
      i = np.argsort(d)
      for k in np.arange(len(target_labels)):
          target_labels_counts[k] = np.sum(y[i[0:K]]==target_labels[k])
      l = np.argmax(target_labels_counts)
      return target_labels[l]
  \<close>
  The loop evaluates \<^verbatim>\<open>y[i[0:K]]\<close> once per target label, so an index out of range
  raises only when there is a label to count.
\<close>

fun count_loop :: "label list \<Rightarrow> nat list \<Rightarrow> label list \<Rightarrow> error + nat list" where
  "count_loop y idx [] = Inr []"
| "count_loop y idx (t # ts) =
     (case index_many y idx of
        Inl e \<Rightarrow> Inl e
      | Inr nb \<Rightarrow>
          (case count_loop y idx ts of
             Inl e \<Rightarrow> Inl e
           | Inr cs \<Rightarrow> Inr (length (filter (\<lambda>v. v = t) nb) # cs)))"

definition KNN ::
  "float_ops \<Rightarrow> (real list \<Rightarrow> nat list) \<Rightarrow> ndarray2 \<Rightarrow> label list \<Rightarrow> real list \<Rightarrow> int \<Rightarrow>
   error + label" where
  "KNN fl argsort x y x_q K =
     (let target_labels = unique y in
      case distances fl x x_q of
        Inl e \<Rightarrow> Inl e
      | Inr d \<Rightarrow>
          (let i = argsort d in
           case count_loop y (slice0 K i) target_labels of
             Inl e \<Rightarrow> Inl e
           | Inr target_labels_counts \<Rightarrow>
               (case argmax target_labels_counts of
                  Inl e \<Rightarrow> Inl e
                | Inr l \<Rightarrow> Inr (target_labels ! l))))"

section \<open>Vocabulary of the properties\<close>

text \<open>
  \<open>nearest\<close> is the slice \<^verbatim>\<open>i[0:K]\<close> that \<^verbatim>\<open>KNN\<close> computes: the indices of the
  neighbourhood, nearest first. \<open>votes\<close> is the count \<^verbatim>\<open>np.sum(y[idx] == t)\<close> of the
  label \<open>t\<close> among the indices \<open>idx\<close>. A label is the \<open>winner\<close> of a vote when it
  occurs in \<open>y\<close>, no label of \<open>y\<close> has more votes, and every label of \<open>y\<close> with as
  many votes is at least as large.
\<close>

definition nearest ::
  "float_ops \<Rightarrow> (real list \<Rightarrow> nat list) \<Rightarrow> ndarray2 \<Rightarrow> real list \<Rightarrow> int \<Rightarrow> nat list" where
  "nearest fl argsort x x_q K =
     (case distances fl x x_q of Inl e \<Rightarrow> [] | Inr d \<Rightarrow> slice0 K (argsort d))"

definition votes :: "label list \<Rightarrow> nat list \<Rightarrow> label \<Rightarrow> nat" where
  "votes y idx t = length (filter (\<lambda>j. y ! j = t) idx)"

definition winner :: "label list \<Rightarrow> nat list \<Rightarrow> label \<Rightarrow> bool" where
  "winner y idx l =
     (l \<in> set y \<and>
      list_all (\<lambda>t. votes y idx t \<le> votes y idx l \<and>
                     (votes y idx t = votes y idx l \<longrightarrow> l \<le> t)) y)"

text \<open>
  \<open>no_zero_distance\<close>: with any example taken as the query, every other example is at
  a positive computed distance (a computed distance is never negative, so this says that
  none is zero). In exact arithmetic it holds when the feature vectors are pairwise
  distinct; in machine arithmetic distinct vectors can be at computed distance zero, when
  the squares of their differences underflow.
\<close>

definition no_zero_distance :: "float_ops \<Rightarrow> ndarray2 \<Rightarrow> bool" where
  "no_zero_distance fl x =
     list_all (\<lambda>m. list_all (\<lambda>j. j = m \<or> 0 < row_distance fl (rows x ! j) (rows x ! m))
                        [0..<length (rows x)])
       [0..<length (rows x)]"

text \<open>
  \<open>predicted\<close> is the value the cell stores in \<^verbatim>\<open>y_prediction[m]\<close>: the label
  \<^verbatim>\<open>KNN\<close> returns for the \<open>m\<close>-th row as the query (it is read only where \<^verbatim>\<open>KNN\<close>
  returns).
\<close>

definition predicted ::
  "float_ops \<Rightarrow> (real list \<Rightarrow> nat list) \<Rightarrow> ndarray2 \<Rightarrow> label list \<Rightarrow> int \<Rightarrow> nat \<Rightarrow> label" where
  "predicted fl argsort x y K m =
     (case KNN fl argsort x y (rows x ! m) K of Inr p \<Rightarrow> p | Inl e \<Rightarrow> 0)"

section \<open>The training-error cell\<close>

text \<open>
  \<^verbatim>\<open>
  N = y_training.shape[0]
  print('{:>2} {:>16}'.format('K', 'Training Error'))
  for K in np.arange(1, 34, 2):
      y_prediction = np.zeros(N)
      for n in np.arange(N):
          x_q = x_training_selected[n]
          y_prediction[n] = KNN(x_training_selected, y_training, x_q, K)
      classification_error = np.sum(y_training != y_prediction) / N
      print('{:>2.0f} {:>16.4f}'.format(K, classification_error))
  \<close>
  The cell works on the notebook's global variables. They are the fields of the record
  \<open>notebook\<close> (the short names \<^verbatim>\<open>x_q\<close>, \<^verbatim>\<open>N\<close>, \<^verbatim>\<open>K\<close> and \<^verbatim>\<open>n\<close> carry the
  prefix \<open>g_\<close>); \<open>printed\<close> is the text written so far, one entry per line (a table
  row is kept as the pair of numbers it formats). An exception stops the cell and leaves
  the variables as they are at that moment, so every command returns the exception (if
  any) together with the state. A quotient whose divisor is 0 is not a number: NumPy
  gives \<^verbatim>\<open>nan\<close> with a warning, modelled by \<open>None\<close>. The loops are the functions
  \<open>prediction_loop\<close> and \<open>error_sweep\<close>; the cell runs them after it has assigned
  \<^verbatim>\<open>N\<close>, so \<^verbatim>\<open>y_training\<close> and \<^verbatim>\<open>y_prediction\<close> have the same length where they
  are compared.
\<close>

datatype line = Header | Row int "real option"

record notebook =
  x_training_selected :: ndarray2
  y_training :: "label list"
  g_x_q :: "real list"
  g_N :: nat
  g_K :: int
  g_n :: nat
  y_prediction :: "label list"
  classification_error :: "real option"
  printed :: "line list"

definition get_row :: "ndarray2 \<Rightarrow> nat \<Rightarrow> error + real list" where
  "get_row x m = (if m < length (rows x) then Inr (rows x ! m) else Inl IndexError)"

definition mismatches :: "label list \<Rightarrow> label list \<Rightarrow> nat" where
  "mismatches y p = length (filter (\<lambda>(a, b). a \<noteq> b) (zip y p))"

definition true_divide :: "nat \<Rightarrow> nat \<Rightarrow> real option" where
  "true_divide c m = (if m = 0 then None else Some (real c / real m))"

definition arange :: "int \<Rightarrow> int \<Rightarrow> int \<Rightarrow> int list" where
  "arange start stop step =
     map (\<lambda>j. start + int j * step) [0..<nat ((stop - start + step - 1) div step)]"

fun prediction_loop ::
  "float_ops \<Rightarrow> (real list \<Rightarrow> nat list) \<Rightarrow> nat list \<Rightarrow> notebook \<Rightarrow>
   error option \<times> notebook" where
  "prediction_loop fl argsort [] s = (None, s)"
| "prediction_loop fl argsort (m # ms) s =
     (let s1 = s\<lparr>g_n := m\<rparr> in
      case get_row (x_training_selected s1) (g_n s1) of
        Inl e \<Rightarrow> (Some e, s1)
      | Inr q \<Rightarrow>
          (let s2 = s1\<lparr>g_x_q := q\<rparr> in
           case KNN fl argsort (x_training_selected s2) (y_training s2) (g_x_q s2) (g_K s2) of
             Inl e \<Rightarrow> (Some e, s2)
           | Inr p \<Rightarrow>
               prediction_loop fl argsort ms
                 (s2\<lparr>y_prediction := (y_prediction s2)[g_n s2 := p]\<rparr>)))"

fun error_sweep ::
  "float_ops \<Rightarrow> (real list \<Rightarrow> nat list) \<Rightarrow> int list \<Rightarrow> notebook \<Rightarrow>
   error option \<times> notebook" where
  "error_sweep fl argsort [] s = (None, s)"
| "error_sweep fl argsort (k # ks) s =
     (let s1 = s\<lparr>g_K := k\<rparr>;
          s2 = s1\<lparr>y_prediction := replicate (g_N s1) 0\<rparr> in
      case prediction_loop fl argsort [0..<g_N s2] s2 of
        (Some e, s3) \<Rightarrow> (Some e, s3)
      | (None, s3) \<Rightarrow>
          (let s4 = s3\<lparr>classification_error :=
                         true_divide (mismatches (y_training s3) (y_prediction s3)) (g_N s3)\<rparr>;
               s5 = s4\<lparr>printed := printed s4 @ [Row (g_K s4) (classification_error s4)]\<rparr>
           in error_sweep fl argsort ks s5))"

text \<open>The cell with the swept values of \<open>K\<close> as a parameter, and the cell as written.\<close>

definition training_error_sweep ::
  "float_ops \<Rightarrow> (real list \<Rightarrow> nat list) \<Rightarrow> int list \<Rightarrow> notebook \<Rightarrow>
   error option \<times> notebook" where
  "training_error_sweep fl argsort ks s =
     (let s1 = s\<lparr>g_N := length (y_training s)\<rparr>;
          s2 = s1\<lparr>printed := printed s1 @ [Header]\<rparr>
      in error_sweep fl argsort ks s2)"

definition training_error_cell ::
  "float_ops \<Rightarrow> (real list \<Rightarrow> nat list) \<Rightarrow> notebook \<Rightarrow> error option \<times> notebook" where
  "training_error_cell fl argsort s = training_error_sweep fl argsort (arange 1 34 2) s"

section \<open>The library operations\<close>

lemma argsort_stable_is_argsort: "is_argsort argsort_stable"
  unfolding is_argsort_def argsort_stable_def by simp

lemma argmax_from_spec:
  "(argmax_from bi bv j cs = bi \<and> (\<forall>c \<in> set cs. c \<le> bv)) \<or>
   (j \<le> argmax_from bi bv j cs \<and> argmax_from bi bv j cs < j + length cs \<and>
    bv < cs ! (argmax_from bi bv j cs - j) \<and>
    (\<forall>c \<in> set cs. c \<le> cs ! (argmax_from bi bv j cs - j)) \<and>
    (\<forall>m < argmax_from bi bv j cs - j. cs ! m < cs ! (argmax_from bi bv j cs - j)))"
proof (induction bi bv j cs rule: argmax_from.induct)
  case (1 bi bv j)
  then show ?case by simp
next
  case (2 bi bv j c cs)
  show ?case
  proof (cases "bv < c")
    case True
    let ?r = "argmax_from j c (Suc j) cs"
    have eq: "argmax_from bi bv j (c # cs) = ?r" using True by simp
    from "2.IH"(1)[OF True] consider
      (a) "?r = j" "\<forall>c' \<in> set cs. c' \<le> c"
      | (b) "Suc j \<le> ?r" "?r < Suc j + length cs" "c < cs ! (?r - Suc j)"
            "\<forall>c' \<in> set cs. c' \<le> cs ! (?r - Suc j)"
            "\<forall>m < ?r - Suc j. cs ! m < cs ! (?r - Suc j)"
      by blast
    then show ?thesis
    proof cases
      case a
      then show ?thesis using True eq by auto
    next
      case b
      have d: "?r - j = Suc (?r - Suc j)" using b(1) by simp
      have "\<forall>m < ?r - j. (c # cs) ! m < (c # cs) ! (?r - j)"
        using b(3,5) d by (auto simp: nth_Cons split: nat.splits)
      moreover have "\<forall>c' \<in> set (c # cs). c' \<le> (c # cs) ! (?r - j)"
        using b(3,4) d by auto
      moreover have "bv < (c # cs) ! (?r - j)" using b(3) d True by simp
      ultimately show ?thesis using eq b(1,2) by auto
    qed
  next
    case False
    let ?r = "argmax_from bi bv (Suc j) cs"
    have eq: "argmax_from bi bv j (c # cs) = ?r" using False by simp
    from "2.IH"(2)[OF False] consider
      (a) "?r = bi" "\<forall>c' \<in> set cs. c' \<le> bv"
      | (b) "Suc j \<le> ?r" "?r < Suc j + length cs" "bv < cs ! (?r - Suc j)"
            "\<forall>c' \<in> set cs. c' \<le> cs ! (?r - Suc j)"
            "\<forall>m < ?r - Suc j. cs ! m < cs ! (?r - Suc j)"
      by blast
    then show ?thesis
    proof cases
      case a
      then show ?thesis using False eq by auto
    next
      case b
      have d: "?r - j = Suc (?r - Suc j)" using b(1) by simp
      have "\<forall>m < ?r - j. (c # cs) ! m < (c # cs) ! (?r - j)"
        using b(3,5) d False by (auto simp: nth_Cons split: nat.splits)
      moreover have "\<forall>c' \<in> set (c # cs). c' \<le> (c # cs) ! (?r - j)"
        using b(3,4) d False by auto
      moreover have "bv < (c # cs) ! (?r - j)" using b(3) d by simp
      ultimately show ?thesis using eq b(1,2) by auto
    qed
  qed
qed

lemma argmax_Nil: "argmax [] = Inl ValueError"
  by (simp add: argmax_def)

lemma argmax_first_max:
  assumes "cs \<noteq> []"
  shows "\<exists>l. argmax cs = Inr l \<and> l < length cs \<and> (\<forall>j < length cs. cs ! j \<le> cs ! l) \<and>
             (\<forall>j < l. cs ! j < cs ! l)"
proof -
  obtain c cs' where cs: "cs = c # cs'" using assms by (cases cs) auto
  let ?r = "argmax_from 0 c 1 cs'"
  have am: "argmax cs = Inr ?r" by (simp add: argmax_def cs)
  from argmax_from_spec[of 0 c 1 cs'] consider
    (a) "?r = 0" "\<forall>c' \<in> set cs'. c' \<le> c"
    | (b) "1 \<le> ?r" "?r < 1 + length cs'" "c < cs' ! (?r - 1)"
          "\<forall>c' \<in> set cs'. c' \<le> cs' ! (?r - 1)"
          "\<forall>m < ?r - 1. cs' ! m < cs' ! (?r - 1)"
    by auto
  then show ?thesis
  proof cases
    case a
    have "\<forall>j < length cs. cs ! j \<le> cs ! 0"
      using a(2) cs by (auto simp: nth_Cons split: nat.splits)
    then show ?thesis using am a(1) cs by auto
  next
    case b
    have d: "?r = Suc (?r - 1)" using b(1) by simp
    have 1: "\<forall>j < length cs. cs ! j \<le> cs ! ?r"
    proof (intro allI impI)
      fix j assume "j < length cs"
      then have "cs ! j \<in> set cs" by simp
      then have "cs ! j = c \<or> cs ! j \<in> set cs'" using cs by auto
      moreover have "cs ! ?r = cs' ! (?r - 1)" using cs d by (metis nth_Cons_Suc)
      ultimately show "cs ! j \<le> cs ! ?r" using b(3,4) by auto
    qed
    have 2: "\<forall>j < ?r. cs ! j < cs ! ?r"
    proof (intro allI impI)
      fix j assume j: "j < ?r"
      have r: "cs ! ?r = cs' ! (?r - 1)" using cs d by (metis nth_Cons_Suc)
      show "cs ! j < cs ! ?r"
      proof (cases j)
        case 0
        then show ?thesis using r b(3) cs by simp
      next
        case (Suc m)
        then have "m < ?r - 1" using j by simp
        then show ?thesis using b(5) r cs Suc by simp
      qed
    qed
    show ?thesis using am 1 2 b(2) cs by auto
  qed
qed

lemma count_loop_ok:
  "index_many y idx = Inr nb \<Longrightarrow>
   count_loop y idx ts = Inr (map (\<lambda>t. length (filter (\<lambda>v. v = t) nb)) ts)"
  by (induction ts) auto

lemma count_loop_err:
  "index_many y idx = Inl e \<Longrightarrow> ts \<noteq> [] \<Longrightarrow> count_loop y idx ts = Inl e"
  by (cases ts) auto

lemma set_unique: "set (unique y) = set y"
  by (simp add: unique_def)

lemma sorted_unique: "sorted (unique y)"
  by (simp add: unique_def)

lemma distinct_unique: "distinct (unique y)"
  by (simp add: unique_def)

lemma unique_Nil_iff: "unique y = [] \<longleftrightarrow> y = []"
  by (metis set_unique set_empty)

section \<open>What the classifier returns\<close>

lemma winner_iff:
  "winner y idx l \<longleftrightarrow>
     l \<in> set y \<and> (\<forall>t \<in> set y. votes y idx t \<le> votes y idx l) \<and>
     (\<forall>t \<in> set y. votes y idx t = votes y idx l \<longrightarrow> l \<le> t)"
  by (auto simp: winner_def list_all_iff)

lemma winner_unique: "winner y idx l \<Longrightarrow> winner y idx l' \<Longrightarrow> l = l'"
  unfolding winner_iff by (meson antisym)

lemma distances_ok:
  "broadcast_ok (ncols x) (length x_q) \<Longrightarrow> \<exists>d. distances fl x x_q = Inr d \<and> length d = length (rows x)"
  by (simp add: distances_def)

lemma distances_err:
  "\<not> broadcast_ok (ncols x) (length x_q) \<Longrightarrow> distances fl x x_q = Inl ValueError"
  by (simp add: distances_def)

lemma votes_filter_map:
  "length (filter (\<lambda>v. v = t) (map (\<lambda>j. y ! j) idx)) = votes y idx t"
  by (simp add: votes_def filter_map comp_def)

lemma KNN_broadcast_error:
  "\<not> broadcast_ok (ncols x) (length x_q) \<Longrightarrow> KNN fl A x y x_q K = Inl ValueError"
  by (simp add: KNN_def distances_err)

lemma KNN_no_labels:
  "y = [] \<Longrightarrow> KNN fl A x y x_q K = Inl ValueError"
  by (simp add: KNN_def unique_def argmax_def distances_def)

lemma KNN_index_error:
  assumes "broadcast_ok (ncols x) (length x_q)" "y \<noteq> []"
    "\<not> list_all (\<lambda>j. j < length y) (nearest fl A x x_q K)"
  shows "KNN fl A x y x_q K = Inl IndexError"
proof -
  obtain d where d: "distances fl x x_q = Inr d" using distances_ok[OF assms(1)] by blast
  have nb: "nearest fl A x x_q K = slice0 K (A d)" by (simp add: nearest_def d)
  have "index_many y (slice0 K (A d)) = Inl IndexError"
    using assms(3) nb by (simp add: index_many_def)
  moreover have "unique y \<noteq> []" using assms(2) by (simp add: unique_Nil_iff)
  ultimately have "count_loop y (slice0 K (A d)) (unique y) = Inl IndexError"
    by (rule count_loop_err)
  then show ?thesis by (simp add: KNN_def d)
qed

lemma KNN_winner:
  assumes "broadcast_ok (ncols x) (length x_q)" "y \<noteq> []"
    "list_all (\<lambda>j. j < length y) (nearest fl A x x_q K)"
  shows "\<exists>l. KNN fl A x y x_q K = Inr l \<and> winner y (nearest fl A x x_q K) l"
proof -
  obtain d where d: "distances fl x x_q = Inr d" using distances_ok[OF assms(1)] by blast
  let ?idx = "slice0 K (A d)"
  let ?ts = "unique y"
  let ?cs = "map (votes y ?idx) ?ts"
  have nb: "nearest fl A x x_q K = ?idx" by (simp add: nearest_def d)
  have "index_many y ?idx = Inr (map (\<lambda>j. y ! j) ?idx)"
    using assms(3) nb by (simp add: index_many_def)
  then have "count_loop y ?idx ?ts =
      Inr (map (\<lambda>t. length (filter (\<lambda>v. v = t) (map (\<lambda>j. y ! j) ?idx))) ?ts)"
    by (rule count_loop_ok)
  then have cl: "count_loop y ?idx ?ts = Inr ?cs"
    by (simp only: votes_filter_map)
  have ne: "?cs \<noteq> []" using assms(2) by (simp add: unique_Nil_iff)
  from argmax_first_max[OF ne] obtain l where
    am: "argmax ?cs = Inr l" and l: "l < length ?ts"
    and mx: "\<forall>j < length ?ts. ?cs ! j \<le> ?cs ! l"
    and fst: "\<forall>j < l. ?cs ! j < ?cs ! l"
    by auto
  have res: "KNN fl A x y x_q K = Inr (?ts ! l)"
    by (simp add: KNN_def d cl am)
  have in_y: "?ts ! l \<in> set y" using l set_unique nth_mem by blast
  have cl_l: "?cs ! l = votes y ?idx (?ts ! l)" using l by simp
  have "votes y ?idx t \<le> votes y ?idx (?ts ! l) \<and>
        (votes y ?idx t = votes y ?idx (?ts ! l) \<longrightarrow> ?ts ! l \<le> t)"
    if t: "t \<in> set y" for t
  proof -
    from t have "t \<in> set ?ts" by (simp add: set_unique)
    then obtain j where j: "j < length ?ts" "?ts ! j = t" by (auto simp: in_set_conv_nth)
    have cj: "?cs ! j = votes y ?idx t" using j by auto
    have le: "votes y ?idx t \<le> votes y ?idx (?ts ! l)" using mx j(1) cj cl_l by metis
    have "?ts ! l \<le> t" if eq: "votes y ?idx t = votes y ?idx (?ts ! l)"
    proof -
      have "\<not> j < l" using fst cj cl_l eq by (metis less_irrefl)
      then have "l \<le> j" by simp
      then show ?thesis using sorted_nth_mono[OF sorted_unique, of l j y] j by simp
    qed
    with le show ?thesis by blast
  qed
  then have "winner y ?idx (?ts ! l)" using in_y unfolding winner_iff by blast
  then show ?thesis using res nb by simp
qed

lemma is_argsort_mset: "is_argsort A \<Longrightarrow> mset (A d) = mset [0..<length d]"
  by (simp add: is_argsort_def)

lemma is_argsort_sorted: "is_argsort A \<Longrightarrow> sorted (map (\<lambda>j. d ! j) (A d))"
  by (simp add: is_argsort_def)

lemma is_argsort_set: "is_argsort A \<Longrightarrow> set (A d) = {0..<length d}"
  using is_argsort_mset[of A d] by (metis set_mset_mset set_upt)

lemma is_argsort_length: "is_argsort A \<Longrightarrow> length (A d) = length d"
  using is_argsort_mset[of A d] by (metis size_mset length_upt diff_zero)

lemma set_slice0: "set (slice0 K xs) \<subseteq> set xs"
  by (auto simp: slice0_def dest: in_set_takeD)

lemma nearest_in_range:
  assumes "is_argsort A"
  shows "set (nearest fl A x x_q K) \<subseteq> {0..<length (rows x)}"
proof (cases "distances fl x x_q")
  case (Inl e)
  then show ?thesis by (simp add: nearest_def)
next
  case (Inr d)
  then have len: "length d = length (rows x)" by (auto simp: distances_def split: if_splits)
  have "set (nearest fl A x x_q K) \<subseteq> set (A d)" using set_slice0 by (simp add: nearest_def Inr)
  then show ?thesis using is_argsort_set[OF assms, of d] len by simp
qed

lemma nearest_labelled:
  assumes "is_argsort A" "length (rows x) \<le> length y"
  shows "list_all (\<lambda>j. j < length y) (nearest fl A x x_q K)"
  using nearest_in_range[OF assms(1), where fl = fl and x = x and x_q = x_q and K = K] assms(2)
  by (auto simp: list_all_iff)

lemma KNN_returns:
  assumes "is_argsort A" "broadcast_ok (ncols x) (length x_q)" "y \<noteq> []"
    "length (rows x) \<le> length y"
  shows "\<exists>l. KNN fl A x y x_q K = Inr l \<and> winner y (nearest fl A x x_q K) l"
  using KNN_winner[OF assms(2,3) nearest_labelled[OF assms(1,4)]] .

lemmas KNN_eval = KNN_def distances_def row_distance_def exact_ops_def broadcast_ok_def sub_row_def
  unique_def argsort_stable_def
  slice0_def index_many_def argmax_def nearest_def votes_def winner_def

lemma KNN_Inr_cases:
  assumes "KNN fl A x y x_q K = Inr l"
  shows "broadcast_ok (ncols x) (length x_q) \<and> y \<noteq> [] \<and>
         list_all (\<lambda>j. j < length y) (nearest fl A x x_q K) \<and> winner y (nearest fl A x x_q K) l"
proof -
  have b: "broadcast_ok (ncols x) (length x_q)"
    using assms
      KNN_broadcast_error[where fl = fl and x = x and x_q = x_q and A = A and y = y and K = K]
    by auto
  have y: "y \<noteq> []"
    using assms
      KNN_no_labels[where fl = fl and x = x and x_q = x_q and A = A and y = y and K = K]
    by auto
  have i: "list_all (\<lambda>j. j < length y) (nearest fl A x x_q K)"
    using assms KNN_index_error[OF b y, where fl = fl and A = A and K = K] by auto
  from KNN_winner[OF b y i] assms have "winner y (nearest fl A x x_q K) l" by auto
  with b y i show ?thesis by blast
qed

lemma winner_in_y: "winner y idx l \<Longrightarrow> l \<in> set y"
  by (simp add: winner_def)

lemma nearest_cong:
  assumes "\<And>d. distances fl x x_q = Inr d \<Longrightarrow> slice0 K (A d) = slice0 K' (A d)"
  shows "nearest fl A x x_q K = nearest fl A x x_q K'"
  using assms by (cases "distances fl x x_q") (simp_all add: nearest_def)

lemma KNN_cong:
  assumes "\<And>d. distances fl x x_q = Inr d \<Longrightarrow> slice0 K (A d) = slice0 K' (A d)"
  shows "KNN fl A x y x_q K = KNN fl A x y x_q K'"
  using assms by (cases "distances fl x x_q") (simp_all add: KNN_def)

lemma votes_Nil: "votes y [] t = 0"
  by (simp add: votes_def)

lemma votes_single: "votes y [j] t = (if y ! j = t then 1 else 0)"
  by (simp add: votes_def)

lemma length_filter_mset: "length (filter P xs) = size (filter_mset P (mset xs))"
  by (metis mset_filter size_mset)

lemma votes_perm:
  assumes "mset idx = mset [0..<length y]"
  shows "votes y idx t = count_list y t"
proof -
  have "votes y idx t = size (filter_mset (\<lambda>j. y ! j = t) (mset idx))"
    unfolding votes_def by (rule length_filter_mset)
  also have "\<dots> = size (filter_mset (\<lambda>j. y ! j = t) (mset [0..<length y]))"
    by (simp only: assms)
  also have "\<dots> = length (filter (\<lambda>j. y ! j = t) [0..<length y])"
    by (rule length_filter_mset[symmetric])
  also have "\<dots> = length (filter (\<lambda>v. v = t) (map (\<lambda>j. y ! j) [0..<length y]))"
    by (simp add: filter_map comp_def)
  also have "\<dots> = length (filter (\<lambda>v. v = t) y)" by (simp add: map_nth)
  also have "\<dots> = count_list y t"
    by (induction y) auto
  finally show ?thesis .
qed

section \<open>The vote\<close>

text \<open>
  Claim C3. When several labels attain the maximal count among the neighbourhood, \<^verbatim>\<open>KNN\<close>
  returns the smallest of them: whenever a label \<open>t\<close> of \<open>y\<close> has a maximal number
  of votes, the classifier returns a label with the same number of votes that is at most
  \<open>t\<close>. This holds for every \<open>K\<close> and every sorting routine that meets the contract.
\<close>

theorem KNN_tie_smallest_label:
  assumes "is_argsort A" and "broadcast_ok (ncols x) (length x_q)"
    and "y \<noteq> []" and "length y = length (rows x)"
    and "t \<in> set y"
    and "\<forall>u \<in> set y. votes y (nearest fl A x x_q K) u \<le> votes y (nearest fl A x x_q K) t"
  shows "\<exists>l. KNN fl A x y x_q K = Inr l \<and>
             votes y (nearest fl A x x_q K) l = votes y (nearest fl A x x_q K) t \<and> l \<le> t"
proof -
  from KNN_returns[OF assms(1,2,3), where fl = fl and K = K] assms(4) obtain l where
    l: "KNN fl A x y x_q K = Inr l" and w: "winner y (nearest fl A x x_q K) l" by auto
  let ?v = "votes y (nearest fl A x x_q K)"
  have "?v t \<le> ?v l" using w assms(5) by (simp add: winner_iff)
  moreover have "?v l \<le> ?v t" using assms(6) winner_in_y[OF w] by blast
  ultimately have eq: "?v l = ?v t" by simp
  then have "l \<le> t" using w assms(5) by (simp add: winner_iff)
  with l eq show ?thesis by blast
qed

theorem KNN_tie_smallest_label_witness:
  "KNN exact_ops argsort_stable \<lparr>ncols = 2, rows = [[0, 0], [10, 10]]\<rparr> [0, 1] [9, 9] 2 = Inr 0 \<and>
   votes [0, 1] (nearest exact_ops argsort_stable \<lparr>ncols = 2, rows = [[0, 0], [10, 10]]\<rparr> [9, 9] 2) 0 = 1 \<and>
   votes [0, 1] (nearest exact_ops argsort_stable \<lparr>ncols = 2, rows = [[0, 0], [10, 10]]\<rparr> [9, 9] 2) 1 = 1"
proof -
  let ?x = "\<lparr>ncols = 2, rows = [[0, 0], [10, 10]]\<rparr>"
  have nb: "nearest exact_ops argsort_stable ?x [9, 9] 2 = [1, 0]"
    by (simp add: nearest_def distances_def row_distance_def exact_ops_def broadcast_ok_def
        sub_row_def argsort_stable_def slice0_def)
  have v: "votes [0, 1] [1, 0] 0 = 1" "votes [0, 1] [1, 0] 1 = 1"
    by (simp_all add: votes_def)
  have "\<exists>l. KNN exact_ops argsort_stable ?x [0, 1] [9, 9] 2 = Inr l \<and>
      votes [0, 1] (nearest exact_ops argsort_stable ?x [9, 9] 2) l =
      votes [0, 1] (nearest exact_ops argsort_stable ?x [9, 9] 2) 1 \<and> l \<le> 1"
    by (rule KNN_tie_smallest_label)
       (simp_all add: argsort_stable_is_argsort broadcast_ok_def nb votes_def)
  moreover have "KNN exact_ops argsort_stable ?x [0, 1] [9, 9] 2 = Inr 0"
    by (simp add: KNN_eval)
  ultimately show ?thesis using nb v by simp
qed

text \<open>
  Claim C10. A label returned by \<^verbatim>\<open>KNN\<close> is an element of \<open>y\<close>, whatever the array,
  the query and \<open>K\<close> are; and a label is returned whenever the label vector is not
  empty, runs parallel to the rows and the query broadcasts against them.
\<close>

theorem KNN_label_in_y:
  "(KNN fl A x y x_q K = Inr l \<longrightarrow> l \<in> set y) \<and>
   (is_argsort A \<and> broadcast_ok (ncols x) (length x_q) \<and> y \<noteq> [] \<and>
    length y = length (rows x) \<longrightarrow> (\<exists>l'. KNN fl A x y x_q K = Inr l'))"
proof (intro conjI impI)
  assume "KNN fl A x y x_q K = Inr l"
  then show "l \<in> set y" using KNN_Inr_cases winner_in_y by blast
next
  assume a: "is_argsort A \<and> broadcast_ok (ncols x) (length x_q) \<and> y \<noteq> [] \<and>
    length y = length (rows x)"
  then have "length (rows x) \<le> length y" by simp
  with a KNN_returns[where fl = fl and A = A and x = x and x_q = x_q and y = y and K = K] show "\<exists>l'. KNN fl A x y x_q K = Inr l'" by blast
qed

theorem KNN_label_in_y_witness:
  "KNN exact_ops argsort_stable \<lparr>ncols = 2, rows = [[0, 0], [10, 10]]\<rparr> [0, 1] [1, 1] 1 = Inr 0 \<and>
   (0::real) \<in> set [0, 1] \<and>
   (\<exists>l'. KNN exact_ops argsort_stable \<lparr>ncols = 2, rows = [[0, 0], [10, 10]]\<rparr> [0, 1] [1, 1] 1 = Inr l')"
proof -
  have r: "KNN exact_ops argsort_stable \<lparr>ncols = 2, rows = [[0, 0], [10, 10]]\<rparr> [0, 1] [1, 1] 1 = Inr 0"
    by (simp add: KNN_eval)
  have h: "is_argsort argsort_stable \<and>
      broadcast_ok (ncols \<lparr>ncols = 2, rows = [[0, 0], [10, 10]]\<rparr>) (length [1, 1 :: real]) \<and>
      [0, 1 :: real] \<noteq> [] \<and>
      length [0, 1 :: real] = length (rows \<lparr>ncols = 2, rows = [[0, 0], [10, 10]]\<rparr>)"
    by (simp add: argsort_stable_is_argsort broadcast_ok_def)
  from KNN_label_in_y[where fl = exact_ops and A = argsort_stable
      and x = "\<lparr>ncols = 2, rows = [[0, 0], [10, 10]]\<rparr>" and y = "[0, 1]" and x_q = "[1, 1]"
      and K = 1 and l = 0]
  show ?thesis using r h by blast
qed

lemma is_argsort_min:
  assumes "is_argsort A" "d \<noteq> []"
  shows "\<exists>j js. A d = j # js \<and> j < length d \<and> (\<forall>m < length d. d ! j \<le> d ! m)"
proof -
  have "length (A d) = length d" by (rule is_argsort_length[OF assms(1)])
  with assms(2) obtain j js where jj: "A d = j # js" by (cases "A d") auto
  have st: "set (A d) = {0..<length d}" by (rule is_argsort_set[OF assms(1)])
  then have j: "j < length d" using jj by auto
  have so: "sorted (map (\<lambda>j. d ! j) (A d))" by (rule is_argsort_sorted[OF assms(1)])
  have "d ! j \<le> d ! m" if "m < length d" for m
  proof -
    from that st have "m \<in> set (A d)" by simp
    then have "m = j \<or> m \<in> set js" using jj by simp
    then show ?thesis using so jj by auto
  qed
  with jj j show ?thesis by blast
qed

lemma winner_single:
  assumes "j < length y"
  shows "winner y [j] (y ! j)"
  using assms by (auto simp: winner_iff votes_single)

lemma KNN_first_neighbour:
  assumes "is_argsort A" and "broadcast_ok (ncols x) (length x_q)"
    and "rows x \<noteq> []" and "length y = length (rows x)"
  shows "\<exists>j d. distances fl x x_q = Inr d \<and> nearest fl A x x_q 1 = [j] \<and> j < length y \<and>
               (\<forall>m < length d. d ! j \<le> d ! m) \<and>
               KNN fl A x y x_q 1 = Inr (y ! j) \<and>
               (\<forall>t. votes y (nearest fl A x x_q 1) t = (if t = y ! j then 1 else 0))"
proof -
  obtain d where d: "distances fl x x_q = Inr d" and len: "length d = length (rows x)"
    using distances_ok[OF assms(2)] by blast
  have dne: "d \<noteq> []" using len assms(3) by auto
  from is_argsort_min[OF assms(1) dne] obtain j js where
    jj: "A d = j # js" and j: "j < length d" and mn: "\<forall>m < length d. d ! j \<le> d ! m"
    by blast
  have nb: "nearest fl A x x_q 1 = [j]" by (simp add: nearest_def d slice0_def jj)
  have jy: "j < length y" using j len assms(4) by simp
  have yne: "y \<noteq> []" using jy by auto
  from KNN_returns[OF assms(1,2) yne, where fl = fl and K = 1] assms(4) obtain l where
    l: "KNN fl A x y x_q 1 = Inr l" and w: "winner y (nearest fl A x x_q 1) l" by auto
  have "l = y ! j" using w winner_single[OF jy] nb winner_unique by metis
  with l have res: "KNN fl A x y x_q 1 = Inr (y ! j)" by simp
  have "\<forall>t. votes y (nearest fl A x x_q 1) t = (if t = y ! j then 1 else 0)"
    by (auto simp: nb votes_single)
  with d nb jy mn res show ?thesis by blast
qed

text \<open>
  Claim C4. With \<open>K = 1\<close> the neighbourhood is the single index \<open>j\<close> the sort puts
  first, its distance is minimal, \<^verbatim>\<open>KNN\<close> returns the label \<open>y[j]\<close>, and the vote
  cannot tie: that label has one vote and every other label none.
\<close>

theorem KNN_K1_nearest_neighbour:
  assumes "is_argsort A" and "broadcast_ok (ncols x) (length x_q)"
    and "rows x \<noteq> []" and "length y = length (rows x)"
  shows "\<exists>j d. distances fl x x_q = Inr d \<and> nearest fl A x x_q 1 = [j] \<and> j < length y \<and>
               (\<forall>m < length d. d ! j \<le> d ! m) \<and>
               KNN fl A x y x_q 1 = Inr (y ! j) \<and>
               (\<forall>t. votes y (nearest fl A x x_q 1) t = (if t = y ! j then 1 else 0))"
  using assms by (rule KNN_first_neighbour)

theorem KNN_K1_nearest_neighbour_witness:
  "nearest exact_ops argsort_stable \<lparr>ncols = 2, rows = [[0, 0], [10, 10]]\<rparr> [1, 1] 1 = [0] \<and>
   KNN exact_ops argsort_stable \<lparr>ncols = 2, rows = [[0, 0], [10, 10]]\<rparr> [0, 1] [1, 1] 1 = Inr 0"
proof -
  let ?x = "\<lparr>ncols = 2, rows = [[0, 0], [10, 10]]\<rparr>"
  have "\<exists>j d. distances exact_ops ?x [1, 1] = Inr d \<and>
      nearest exact_ops argsort_stable ?x [1, 1] 1 = [j] \<and> j < length [0, 1 :: real] \<and>
      (\<forall>m < length d. d ! j \<le> d ! m) \<and>
      KNN exact_ops argsort_stable ?x [0, 1] [1, 1] 1 = Inr ([0, 1] ! j) \<and>
      (\<forall>t. votes [0, 1] (nearest exact_ops argsort_stable ?x [1, 1] 1) t =
           (if t = [0, 1] ! j then 1 else 0))"
    by (rule KNN_K1_nearest_neighbour)
       (simp_all add: argsort_stable_is_argsort broadcast_ok_def)
  then obtain j where j: "nearest exact_ops argsort_stable ?x [1, 1] 1 = [j]"
    and r: "KNN exact_ops argsort_stable ?x [0, 1] [1, 1] 1 = Inr ([0, 1] ! j)" by blast
  have nb: "nearest exact_ops argsort_stable ?x [1, 1] 1 = [0]"
    by (simp add: nearest_def distances_def row_distance_def exact_ops_def broadcast_ok_def
        sub_row_def argsort_stable_def slice0_def)
  with j have "j = 0" by simp
  with r nb show ?thesis by simp
qed

text \<open>
  Claim C5. With \<open>K\<close> equal to the number of examples the neighbourhood is the whole
  dataset, so \<^verbatim>\<open>KNN\<close> returns a label that occurs most often in \<open>y\<close>, the smallest
  one when several labels occur equally often.
\<close>

theorem KNN_KN_global_majority:
  assumes "is_argsort A" and "broadcast_ok (ncols x) (length x_q)"
    and "rows x \<noteq> []" and "length y = length (rows x)"
  shows "\<exists>l. KNN fl A x y x_q (int (length (rows x))) = Inr l \<and> l \<in> set y \<and>
             (\<forall>t. count_list y t \<le> count_list y l) \<and>
             (\<forall>t \<in> set y. count_list y t = count_list y l \<longrightarrow> l \<le> t)"
proof -
  obtain d where d: "distances fl x x_q = Inr d" and len: "length d = length (rows x)"
    using distances_ok[OF assms(2)] by blast
  have la: "length (A d) = length (rows x)" using is_argsort_length[OF assms(1)] len by simp
  have nb: "nearest fl A x x_q (int (length (rows x))) = A d"
    by (simp add: nearest_def d slice0_def la)
  have "mset (A d) = mset [0..<length y]"
    using is_argsort_mset[OF assms(1), of d] len assms(4) by simp
  then have v: "votes y (A d) t = count_list y t" for t by (rule votes_perm)
  have yne: "y \<noteq> []" using assms(3,4) by auto
  from KNN_returns[OF assms(1,2) yne, where fl = fl and K = "int (length (rows x))"] assms(4) obtain l where
    l: "KNN fl A x y x_q (int (length (rows x))) = Inr l"
    and w: "winner y (nearest fl A x x_q (int (length (rows x)))) l" by auto
  from w have w': "l \<in> set y" "\<forall>t \<in> set y. count_list y t \<le> count_list y l"
    "\<forall>t \<in> set y. count_list y t = count_list y l \<longrightarrow> l \<le> t"
    by (simp_all add: winner_iff nb v)
  have "count_list y t \<le> count_list y l" for t
  proof (cases "t \<in> set y")
    case True
    then show ?thesis using w'(2) by blast
  next
    case False
    then show ?thesis by (simp add: count_list_0_iff)
  qed
  with l w' show ?thesis by blast
qed

theorem KNN_KN_global_majority_witness:
  "KNN exact_ops argsort_stable \<lparr>ncols = 1, rows = [[0], [1], [5]]\<rparr> [1, 0, 1] [0] 3 = Inr 1 \<and>
   count_list [1, 0, 1 :: real] 1 = 2 \<and> count_list [1, 0, 1 :: real] 0 = 1"
proof -
  let ?x = "\<lparr>ncols = 1, rows = [[0], [1], [5]]\<rparr>"
  have "\<exists>l. KNN exact_ops argsort_stable ?x [1, 0, 1] [0] (int (length (rows ?x))) = Inr l \<and>
      l \<in> set [1, 0, 1] \<and>
      (\<forall>t. count_list [1, 0, 1 :: real] t \<le> count_list [1, 0, 1] l) \<and>
      (\<forall>t \<in> set [1, 0, 1]. count_list [1, 0, 1] t = count_list [1, 0, 1] l \<longrightarrow> l \<le> t)"
    by (rule KNN_KN_global_majority)
       (simp_all add: argsort_stable_is_argsort broadcast_ok_def)
  then obtain l where l: "KNN exact_ops argsort_stable ?x [1, 0, 1] [0] 3 = Inr l"
    and m: "\<forall>t. count_list [1, 0, 1 :: real] t \<le> count_list [1, 0, 1] l"
    and i: "l \<in> set [1, 0, 1]" by auto
  from m have "count_list [1, 0, 1 :: real] 1 \<le> count_list [1, 0, 1] l" by blast
  with i have "l = 1" by auto
  with l show ?thesis by simp
qed

text \<open>
  Claim C9. For \<open>K\<close> greater than the number of examples the slice stops at the end of
  the index array: \<^verbatim>\<open>KNN\<close> raises nothing and returns the label it returns for
  \<open>K\<close> equal to the number of examples.
\<close>

theorem KNN_K_beyond_N:
  assumes "is_argsort A" and "broadcast_ok (ncols x) (length x_q)"
    and "rows x \<noteq> []" and "length y = length (rows x)"
    and "int (length (rows x)) < K"
  shows "\<exists>l. KNN fl A x y x_q K = Inr l \<and> KNN fl A x y x_q (int (length (rows x))) = Inr l"
proof -
  have yne: "y \<noteq> []" using assms(3,4) by auto
  have "KNN fl A x y x_q K = KNN fl A x y x_q (int (length (rows x)))"
  proof (rule KNN_cong)
    fix d assume "distances fl x x_q = Inr d"
    then have "length d = length (rows x)" by (auto simp: distances_def split: if_splits)
    then have "length (A d) = length (rows x)" using is_argsort_length[OF assms(1)] by simp
    then show "slice0 K (A d) = slice0 (int (length (rows x))) (A d)"
      using assms(5) by (simp add: slice0_def)
  qed
  moreover from KNN_returns[OF assms(1,2) yne, where fl = fl and K = K] assms(4)
  obtain l where "KNN fl A x y x_q K = Inr l" by auto
  ultimately show ?thesis by metis
qed

theorem KNN_K_beyond_N_witness:
  "KNN exact_ops argsort_stable \<lparr>ncols = 2, rows = [[0, 0], [10, 10]]\<rparr> [0, 1] [9, 9] 7 = Inr 0 \<and>
   KNN exact_ops argsort_stable \<lparr>ncols = 2, rows = [[0, 0], [10, 10]]\<rparr> [0, 1] [9, 9] 2 = Inr 0"
proof -
  let ?x = "\<lparr>ncols = 2, rows = [[0, 0], [10, 10]]\<rparr>"
  have "\<exists>l. KNN exact_ops argsort_stable ?x [0, 1] [9, 9] 7 = Inr l \<and>
      KNN exact_ops argsort_stable ?x [0, 1] [9, 9] (int (length (rows ?x))) = Inr l"
    by (rule KNN_K_beyond_N) (simp_all add: argsort_stable_is_argsort broadcast_ok_def)
  moreover have "KNN exact_ops argsort_stable ?x [0, 1] [9, 9] 2 = Inr 0"
    by (simp add: KNN_eval)
  ultimately show ?thesis by auto
qed

section \<open>Values of \<open>K\<close> and query shapes outside the documented range\<close>

text \<open>
  Claim C2, as stated, fails: \<^verbatim>\<open>KNN\<close> has no check of \<open>K\<close>. With \<open>K = 0\<close> the slice
  \<^verbatim>\<open>i[0:0]\<close> is empty, every count is zero and \<^verbatim>\<open>np.argmax\<close> picks the first label.
\<close>

theorem KNN_K0_counterexample:
  "KNN exact_ops argsort_stable \<lparr>ncols = 2, rows = [[0, 0], [10, 10]]\<rparr> [0, 1] [1, 1] 0 = Inr 0"
  by (simp add: KNN_eval)

lemma winner_no_votes:
  assumes "winner y [] l"
  shows "l = Min (set y)"
proof -
  from assms have "l \<in> set y" "\<forall>t \<in> set y. l \<le> t"
    by (simp_all add: winner_iff votes_Nil)
  then have "Min (set y) = l" by (intro Min_eqI) auto
  then show ?thesis by simp
qed

text \<open>
  Claim C2, amended. On a non-empty labelled dataset with a query that broadcasts,
  \<^verbatim>\<open>KNN\<close> with \<open>K \<le> 0\<close> raises nothing and returns a label of \<open>y\<close>: for \<open>K = 0\<close> the
  smallest label, and for \<open>K < 0\<close> the label it returns for \<open>max 0 (N + K)\<close> neighbours
  (the slice \<^verbatim>\<open>i[0:K]\<close> drops the \<open>-K\<close> farthest examples).
\<close>

theorem KNN_nonpositive_K:
  assumes "is_argsort A" and "broadcast_ok (ncols x) (length x_q)"
    and "y \<noteq> []" and "length y = length (rows x)"
    and "K \<le> 0"
  shows "\<exists>l. KNN fl A x y x_q K = Inr l \<and> l \<in> set y \<and>
             (K = 0 \<longrightarrow> l = Min (set y)) \<and>
             (K < 0 \<longrightarrow> KNN fl A x y x_q (max 0 (int (length (rows x)) + K)) = Inr l)"
proof -
  from KNN_returns[OF assms(1,2,3), where fl = fl and K = K] assms(4) obtain l where
    l: "KNN fl A x y x_q K = Inr l" and w: "winner y (nearest fl A x x_q K) l" by auto
  obtain d where d: "distances fl x x_q = Inr d" and len: "length d = length (rows x)"
    using distances_ok[OF assms(2)] by blast
  have la: "length (A d) = length (rows x)" using is_argsort_length[OF assms(1)] len by simp
  have zero: "l = Min (set y)" if "K = 0"
  proof -
    have "nearest fl A x x_q K = []" using that by (simp add: nearest_def d slice0_def)
    with w show ?thesis using winner_no_votes by simp
  qed
  have neg: "KNN fl A x y x_q (max 0 (int (length (rows x)) + K)) = Inr l" if "K < 0"
  proof -
    have "KNN fl A x y x_q K = KNN fl A x y x_q (max 0 (int (length (rows x)) + K))"
    proof (rule KNN_cong)
      fix d' assume "distances fl x x_q = Inr d'"
      then have "d' = d" using d by simp
      then show "slice0 K (A d') = slice0 (max 0 (int (length (rows x)) + K)) (A d')"
        using that la by (simp add: slice0_def max_def)
    qed
    with l show ?thesis by simp
  qed
  from l winner_in_y[OF w] zero neg show ?thesis by blast
qed

theorem KNN_nonpositive_K_witness:
  "KNN exact_ops argsort_stable \<lparr>ncols = 2, rows = [[0, 0], [10, 10]]\<rparr> [0, 1] [9, 9] (- 1) = Inr 1 \<and>
   KNN exact_ops argsort_stable \<lparr>ncols = 2, rows = [[0, 0], [10, 10]]\<rparr> [0, 1] [9, 9] 1 = Inr 1"
proof -
  let ?x = "\<lparr>ncols = 2, rows = [[0, 0], [10, 10]]\<rparr>"
  have "\<exists>l. KNN exact_ops argsort_stable ?x [0, 1] [9, 9] (- 1) = Inr l \<and> l \<in> set [0, 1] \<and>
      ((- 1 :: int) = 0 \<longrightarrow> l = Min (set [0, 1])) \<and>
      ((- 1 :: int) < 0 \<longrightarrow>
         KNN exact_ops argsort_stable ?x [0, 1] [9, 9] (max 0 (int (length (rows ?x)) + - 1)) = Inr l)"
    by (rule KNN_nonpositive_K) (simp_all add: argsort_stable_is_argsort broadcast_ok_def)
  moreover have "KNN exact_ops argsort_stable ?x [0, 1] [9, 9] (- 1) = Inr 1"
    by (simp add: KNN_eval)
  ultimately show ?thesis by auto
qed

text \<open>
  Claim C8, as stated, fails: NumPy broadcasts a query of length 1 against rows of any
  length, so a query of another dimension than the rows can be classified.
\<close>

theorem KNN_dimension_counterexample:
  "KNN exact_ops argsort_stable \<lparr>ncols = 2, rows = [[0, 0], [10, 10]]\<rparr> [0, 1] [1] 1 = Inr 0"
  by (simp add: KNN_eval)

text \<open>
  Claim C8, amended. For a query whose length differs from the number of columns,
  \<^verbatim>\<open>KNN\<close> fails with \<^verbatim>\<open>ValueError\<close> when neither length is 1; when one of them is 1
  the shapes broadcast and, on a non-empty labelled dataset, a label of \<open>y\<close> is returned.
\<close>

theorem KNN_dimension_mismatch:
  assumes "length x_q \<noteq> ncols x"
  shows "(length x_q \<noteq> 1 \<and> ncols x \<noteq> 1 \<longrightarrow> KNN fl A x y x_q K = Inl ValueError) \<and>
         ((length x_q = 1 \<or> ncols x = 1) \<and> is_argsort A \<and> y \<noteq> [] \<and>
          length y = length (rows x) \<longrightarrow> (\<exists>l. KNN fl A x y x_q K = Inr l \<and> l \<in> set y))"
proof (intro conjI impI)
  assume "length x_q \<noteq> 1 \<and> ncols x \<noteq> 1"
  with assms have "\<not> broadcast_ok (ncols x) (length x_q)" by (auto simp: broadcast_ok_def)
  then show "KNN fl A x y x_q K = Inl ValueError" by (rule KNN_broadcast_error)
next
  assume a: "(length x_q = 1 \<or> ncols x = 1) \<and> is_argsort A \<and> y \<noteq> [] \<and>
          length y = length (rows x)"
  then have b: "broadcast_ok (ncols x) (length x_q)" by (auto simp: broadcast_ok_def)
  from a have "length (rows x) \<le> length y" by simp
  with KNN_returns[OF _ b, where fl = fl and A = A and y = y and K = K] a
  show "\<exists>l. KNN fl A x y x_q K = Inr l \<and> l \<in> set y" using winner_in_y by blast
qed

theorem KNN_dimension_mismatch_witness:
  "KNN exact_ops argsort_stable \<lparr>ncols = 2, rows = [[0, 0], [10, 10]]\<rparr> [0, 1] [9, 9, 9] 1 = Inl ValueError \<and>
   KNN exact_ops argsort_stable \<lparr>ncols = 2, rows = [[0, 0], [10, 10]]\<rparr> [0, 1] [9] 1 = Inr 1"
proof -
  let ?x = "\<lparr>ncols = 2, rows = [[0, 0], [10, 10]]\<rparr>"
  have "length [9, 9, 9 :: real] \<noteq> ncols ?x" by simp
  from KNN_dimension_mismatch[OF this, where fl = exact_ops and A = argsort_stable and y = "[0, 1]"
      and K = 1]
  have 1: "KNN exact_ops argsort_stable ?x [0, 1] [9, 9, 9] 1 = Inl ValueError" by simp
  have "length [9 :: real] \<noteq> ncols ?x" by simp
  from KNN_dimension_mismatch[OF this, where fl = exact_ops and A = argsort_stable and y = "[0, 1]"
      and K = 1]
  have "\<exists>l. KNN exact_ops argsort_stable ?x [0, 1] [9] 1 = Inr l \<and> l \<in> set [0, 1]"
    by (simp add: argsort_stable_is_argsort)
  moreover have "KNN exact_ops argsort_stable ?x [0, 1] [9] 1 = Inr 1"
    by (simp add: KNN_eval)
  ultimately show ?thesis using 1 by simp
qed

section \<open>The evaluation loops\<close>

lemmas cell_eval = training_error_sweep_def Let_def get_row_def mismatches_def true_divide_def

lemma arange_sweep_values:
  "arange 1 34 2 = [1, 3, 5, 7, 9, 11, 13, 15, 17, 19, 21, 23, 25, 27, 29, 31, 33]"
  by (simp add: arange_def upt_rec)

lemma prediction_loop_frame:
  "prediction_loop fl A ms s = (r, s') \<Longrightarrow>
   x_training_selected s' = x_training_selected s \<and> y_training s' = y_training s \<and>
   g_K s' = g_K s \<and> g_N s' = g_N s \<and> printed s' = printed s \<and>
   classification_error s' = classification_error s \<and>
   length (y_prediction s') = length (y_prediction s)"
proof (induction ms arbitrary: s)
  case Nil
  then show ?case by simp
next
  case (Cons m ms)
  show ?case
  proof (cases "get_row (x_training_selected s) m")
    case (Inl e)
    with Cons.prems show ?thesis by auto
  next
    case (Inr q)
    show ?thesis
    proof (cases "KNN fl A (x_training_selected s) (y_training s) q (g_K s)")
      case (Inl e)
      with Cons.prems Inr show ?thesis by auto
    next
      case p: (Inr p)
      let ?s2 = "s\<lparr>g_n := m, g_x_q := q, y_prediction := (y_prediction s)[m := p]\<rparr>"
      from Cons.prems Inr p have "prediction_loop fl A ms ?s2 = (r, s')" by simp
      from Cons.IH[OF this] show ?thesis by simp
    qed
  qed
qed

lemma prediction_loop_rel:
  assumes "x_training_selected s = x_training_selected t" and "y_training s = y_training t"
    and "g_K s = g_K t" and "y_prediction s = y_prediction t"
  shows "fst (prediction_loop fl A ms s) = fst (prediction_loop fl A ms t) \<and>
         y_prediction (snd (prediction_loop fl A ms s)) = y_prediction (snd (prediction_loop fl A ms t))"
  using assms
proof (induction ms arbitrary: s t)
  case Nil
  then show ?case by simp
next
  case (Cons m ms)
  show ?case
  proof (cases "get_row (x_training_selected s) m")
    case (Inl e)
    with Cons.prems show ?thesis by auto
  next
    case (Inr q)
    show ?thesis
    proof (cases "KNN fl A (x_training_selected s) (y_training s) q (g_K s)")
      case (Inl e)
      with Cons.prems Inr show ?thesis by auto
    next
      case p: (Inr p)
      let ?s2 = "s\<lparr>g_n := m, g_x_q := q, y_prediction := (y_prediction s)[m := p]\<rparr>"
      let ?t2 = "t\<lparr>g_n := m, g_x_q := q, y_prediction := (y_prediction t)[m := p]\<rparr>"
      have 1: "prediction_loop fl A (m # ms) s = prediction_loop fl A ms ?s2" using Inr p by simp
      have 2: "prediction_loop fl A (m # ms) t = prediction_loop fl A ms ?t2"
        using Inr p Cons.prems by simp
      have "fst (prediction_loop fl A ms ?s2) = fst (prediction_loop fl A ms ?t2) \<and>
         y_prediction (snd (prediction_loop fl A ms ?s2)) =
         y_prediction (snd (prediction_loop fl A ms ?t2))"
        by (rule Cons.IH) (simp_all add: Cons.prems)
      with 1 2 show ?thesis by simp
    qed
  qed
qed

lemma prediction_loop_ok:
  assumes "\<forall>m \<in> set ms. m < length (rows (x_training_selected s)) \<and>
             (\<exists>p. KNN fl A (x_training_selected s) (y_training s)
                    (rows (x_training_selected s) ! m) (g_K s) = Inr p)"
  shows "\<exists>s'. prediction_loop fl A ms s = (None, s') \<and>
           y_prediction s' =
             map (\<lambda>i. if i \<in> set ms
                       then predicted fl A (x_training_selected s) (y_training s) (g_K s) i
                       else y_prediction s ! i) [0..<length (y_prediction s)]"
  using assms
proof (induction ms arbitrary: s)
  case Nil
  then show ?case by (simp add: map_nth)
next
  case (Cons m ms)
  let ?x = "x_training_selected s" and ?y = "y_training s"
  from Cons.prems have m: "m < length (rows ?x)" by simp
  from Cons.prems obtain p where p: "KNN fl A ?x ?y (rows ?x ! m) (g_K s) = Inr p" by auto
  then have pp: "predicted fl A ?x ?y (g_K s) m = p" by (simp add: predicted_def)
  let ?s2 = "s\<lparr>g_n := m, g_x_q := rows ?x ! m, y_prediction := (y_prediction s)[m := p]\<rparr>"
  have step: "prediction_loop fl A (m # ms) s = prediction_loop fl A ms ?s2"
    using m p by (simp add: get_row_def)
  have "\<exists>s'. prediction_loop fl A ms ?s2 = (None, s') \<and>
           y_prediction s' =
             map (\<lambda>i. if i \<in> set ms
                       then predicted fl A (x_training_selected ?s2) (y_training ?s2) (g_K ?s2) i
                       else y_prediction ?s2 ! i) [0..<length (y_prediction ?s2)]"
    by (rule Cons.IH) (use Cons.prems in simp)
  then obtain s' where s': "prediction_loop fl A ms ?s2 = (None, s')"
    and yp: "y_prediction s' =
             map (\<lambda>i. if i \<in> set ms then predicted fl A ?x ?y (g_K s) i
                       else (y_prediction s)[m := p] ! i) [0..<length (y_prediction s)]"
    by auto
  have "map (\<lambda>i. if i \<in> set ms then predicted fl A ?x ?y (g_K s) i
                       else (y_prediction s)[m := p] ! i) [0..<length (y_prediction s)] =
        map (\<lambda>i. if i \<in> set (m # ms) then predicted fl A ?x ?y (g_K s) i
                       else y_prediction s ! i) [0..<length (y_prediction s)]"
    by (rule map_cong) (auto simp: pp nth_list_update)
  with step s' yp show ?case by simp
qed

section \<open>Repeated evaluation\<close>

lemma error_sweep_fail:
  assumes "prediction_loop fl A [0..<g_N s] (s\<lparr>g_K := k, y_prediction := replicate (g_N s) 0\<rparr>)
            = (Some e, s3)"
  shows "error_sweep fl A (k # ks) s = (Some e, s3)"
  using assms by (simp add: Let_def)

lemma error_sweep_step:
  assumes "prediction_loop fl A [0..<g_N s] (s\<lparr>g_K := k, y_prediction := replicate (g_N s) 0\<rparr>)
            = (None, s3)"
  shows "error_sweep fl A (k # ks) s =
         error_sweep fl A ks
           (s3\<lparr>classification_error :=
                  true_divide (mismatches (y_training s3) (y_prediction s3)) (g_N s3),
               printed := printed s3 @
                  [Row (g_K s3)
                     (true_divide (mismatches (y_training s3) (y_prediction s3)) (g_N s3))]\<rparr>)"
  using assms by (simp add: Let_def)

lemma error_sweep_frame:
  "error_sweep fl A ks s = (r, s') \<Longrightarrow>
   x_training_selected s' = x_training_selected s \<and> y_training s' = y_training s \<and>
   g_N s' = g_N s"
proof (induction ks arbitrary: s)
  case Nil
  then show ?case by simp
next
  case (Cons k ks)
  let ?s2 = "s\<lparr>g_K := k, y_prediction := replicate (g_N s) 0\<rparr>"
  obtain r3 s3 where pl: "prediction_loop fl A [0..<g_N s] ?s2 = (r3, s3)"
    by (cases "prediction_loop fl A [0..<g_N s] ?s2") auto
  from prediction_loop_frame[OF pl]
  have fr: "x_training_selected s3 = x_training_selected s" "y_training s3 = y_training s"
    "g_N s3 = g_N s" by simp_all
  show ?case
  proof (cases r3)
    case (Some e)
    with pl Cons.prems
      error_sweep_fail[where fl = fl and A = A and s = s and k = k and e = e and ?s3.0 = s3
        and ks = ks]
      fr show ?thesis by simp
  next
    case None
    with pl have "error_sweep fl A (k # ks) s =
         error_sweep fl A ks
           (s3\<lparr>classification_error :=
                  true_divide (mismatches (y_training s3) (y_prediction s3)) (g_N s3),
               printed := printed s3 @
                  [Row (g_K s3)
                     (true_divide (mismatches (y_training s3) (y_prediction s3)) (g_N s3))]\<rparr>)"
      by (intro error_sweep_step) simp
    with Cons.prems Cons.IH fr show ?thesis by fastforce
  qed
qed

lemma error_sweep_rel:
  assumes "x_training_selected s = x_training_selected t" and "y_training s = y_training t"
    and "g_N s = g_N t"
  shows "fst (error_sweep fl A ks s) = fst (error_sweep fl A ks t) \<and>
         (\<exists>out. printed (snd (error_sweep fl A ks s)) = printed s @ out \<and>
                printed (snd (error_sweep fl A ks t)) = printed t @ out)"
  using assms
proof (induction ks arbitrary: s t)
  case Nil
  then show ?case by simp
next
  case (Cons k ks)
  let ?s2 = "s\<lparr>g_K := k, y_prediction := replicate (g_N s) 0\<rparr>"
  let ?t2 = "t\<lparr>g_K := k, y_prediction := replicate (g_N t) 0\<rparr>"
  obtain rs s3 where ps: "prediction_loop fl A [0..<g_N s] ?s2 = (rs, s3)"
    by (cases "prediction_loop fl A [0..<g_N s] ?s2") auto
  obtain rt t3 where pt: "prediction_loop fl A [0..<g_N t] ?t2 = (rt, t3)"
    by (cases "prediction_loop fl A [0..<g_N t] ?t2") auto
  have "fst (prediction_loop fl A [0..<g_N s] ?s2) = fst (prediction_loop fl A [0..<g_N s] ?t2) \<and>
        y_prediction (snd (prediction_loop fl A [0..<g_N s] ?s2)) =
        y_prediction (snd (prediction_loop fl A [0..<g_N s] ?t2))"
    by (rule prediction_loop_rel) (simp_all add: Cons.prems)
  with ps pt Cons.prems(3) have req: "rs = rt" and yp: "y_prediction s3 = y_prediction t3"
    by simp_all
  from prediction_loop_frame[OF ps]
  have fs: "x_training_selected s3 = x_training_selected s" "y_training s3 = y_training s"
    "g_N s3 = g_N s" "g_K s3 = k" "printed s3 = printed s" by simp_all
  from prediction_loop_frame[OF pt]
  have ft: "x_training_selected t3 = x_training_selected t" "y_training t3 = y_training t"
    "g_N t3 = g_N t" "g_K t3 = k" "printed t3 = printed t" by simp_all
  show ?case
  proof (cases rs)
    case (Some e)
    have "error_sweep fl A (k # ks) s = (Some e, s3)"
      using ps Some by (intro error_sweep_fail) simp
    moreover have "error_sweep fl A (k # ks) t = (Some e, t3)"
      using pt Some req by (intro error_sweep_fail) simp
    ultimately show ?thesis using fs(5) ft(5) by simp
  next
    case None
    let ?ce = "true_divide (mismatches (y_training s3) (y_prediction s3)) (g_N s3)"
    let ?s5 = "s3\<lparr>classification_error := ?ce, printed := printed s3 @ [Row (g_K s3) ?ce]\<rparr>"
    let ?t5 = "t3\<lparr>classification_error := ?ce, printed := printed t3 @ [Row (g_K s3) ?ce]\<rparr>"
    have es: "error_sweep fl A (k # ks) s = error_sweep fl A ks ?s5"
      using ps None by (intro error_sweep_step) simp
    have "error_sweep fl A (k # ks) t = error_sweep fl A ks
           (t3\<lparr>classification_error :=
                  true_divide (mismatches (y_training t3) (y_prediction t3)) (g_N t3),
               printed := printed t3 @
                  [Row (g_K t3)
                     (true_divide (mismatches (y_training t3) (y_prediction t3)) (g_N t3))]\<rparr>)"
      using pt None req by (intro error_sweep_step) simp
    then have et: "error_sweep fl A (k # ks) t = error_sweep fl A ks ?t5"
      using yp fs ft Cons.prems by simp
    have "fst (error_sweep fl A ks ?s5) = fst (error_sweep fl A ks ?t5) \<and>
         (\<exists>out. printed (snd (error_sweep fl A ks ?s5)) = printed ?s5 @ out \<and>
                printed (snd (error_sweep fl A ks ?t5)) = printed ?t5 @ out)"
      by (rule Cons.IH) (simp_all add: fs ft Cons.prems)
    then obtain out where o: "fst (error_sweep fl A ks ?s5) = fst (error_sweep fl A ks ?t5)"
      "printed (snd (error_sweep fl A ks ?s5)) = printed ?s5 @ out"
      "printed (snd (error_sweep fl A ks ?t5)) = printed ?t5 @ out" by blast
    have "printed (snd (error_sweep fl A (k # ks) s)) = printed s @ (Row k ?ce # out)"
      using es o(2) fs by simp
    moreover have "printed (snd (error_sweep fl A (k # ks) t)) = printed t @ (Row k ?ce # out)"
      using et o(3) fs ft by simp
    moreover have "fst (error_sweep fl A (k # ks) s) = fst (error_sweep fl A (k # ks) t)"
      using es et o(1) by simp
    ultimately show ?thesis by blast
  qed
qed

text \<open>
  Claim C7. Running the training-error evaluation a second time, from the state the first
  run leaves, raises the same exception (or none) and prints the same lines again; the
  data is not changed by a run. The variables the first run overwrites (\<^verbatim>\<open>x_q\<close>,
  \<^verbatim>\<open>K\<close>, \<^verbatim>\<open>n\<close>, \<^verbatim>\<open>y_prediction\<close>, \<^verbatim>\<open>classification_error\<close>) have no influence
  on the second: the result depends on the data and the swept values of \<open>K\<close> only.
\<close>

theorem training_error_sweep_twice:
  "fst (training_error_sweep fl A ks (snd (training_error_sweep fl A ks s))) =
     fst (training_error_sweep fl A ks s) \<and>
   (\<exists>out. printed (snd (training_error_sweep fl A ks s)) = printed s @ out \<and>
          printed (snd (training_error_sweep fl A ks (snd (training_error_sweep fl A ks s)))) =
            printed s @ out @ out) \<and>
   x_training_selected (snd (training_error_sweep fl A ks s)) = x_training_selected s \<and>
   y_training (snd (training_error_sweep fl A ks s)) = y_training s"
proof -
  let ?s0 = "s\<lparr>g_N := length (y_training s), printed := printed s @ [Header]\<rparr>"
  obtain r1 s1 where r1: "error_sweep fl A ks ?s0 = (r1, s1)"
    by (cases "error_sweep fl A ks ?s0") auto
  have t1: "training_error_sweep fl A ks s = (r1, s1)"
    using r1 by (simp add: training_error_sweep_def Let_def)
  from error_sweep_frame[OF r1]
  have fr: "x_training_selected s1 = x_training_selected s" "y_training s1 = y_training s"
    by simp_all
  let ?s0' = "s1\<lparr>g_N := length (y_training s1), printed := printed s1 @ [Header]\<rparr>"
  have t2: "training_error_sweep fl A ks s1 = error_sweep fl A ks ?s0'"
    by (simp add: training_error_sweep_def Let_def)
  have "fst (error_sweep fl A ks ?s0) = fst (error_sweep fl A ks ?s0') \<and>
         (\<exists>out. printed (snd (error_sweep fl A ks ?s0)) = printed ?s0 @ out \<and>
                printed (snd (error_sweep fl A ks ?s0')) = printed ?s0' @ out)"
    by (rule error_sweep_rel) (simp_all add: fr)
  then obtain out where o: "fst (error_sweep fl A ks ?s0') = r1"
    "printed s1 = printed s @ Header # out"
    "printed (snd (error_sweep fl A ks ?s0')) = printed s1 @ Header # out"
    using r1 by auto
  have "printed (snd (training_error_sweep fl A ks s)) = printed s @ (Header # out)"
    using t1 o(2) by simp
  moreover have "printed (snd (training_error_sweep fl A ks (snd (training_error_sweep fl A ks s)))) =
            printed s @ (Header # out) @ (Header # out)"
    using t1 t2 o(2,3) by simp
  moreover have "fst (training_error_sweep fl A ks (snd (training_error_sweep fl A ks s))) =
     fst (training_error_sweep fl A ks s)"
    using t1 t2 o(1) by simp
  ultimately show ?thesis using t1 fr by auto
qed

theorem training_error_sweep_twice_witness:
  "printed (snd (training_error_sweep exact_ops argsort_stable [1]
     (snd (training_error_sweep exact_ops argsort_stable [1]
      \<lparr>x_training_selected = \<lparr>ncols = 2, rows = [[0, 0], [10, 10]]\<rparr>, y_training = [0, 1],
       g_x_q = [], g_N = 0, g_K = 0, g_n = 0, y_prediction = [],
       classification_error = None, printed = []\<rparr>)))) =
   [Header, Row 1 (Some 0), Header, Row 1 (Some 0)]"
proof -
  let ?s = "\<lparr>x_training_selected = \<lparr>ncols = 2, rows = [[0, 0], [10, 10]]\<rparr>,
       y_training = [0, 1], g_x_q = [], g_N = 0, g_K = 0, g_n = 0, y_prediction = [],
       classification_error = None, printed = []\<rparr>"
  from training_error_sweep_twice[where fl = exact_ops and A = argsort_stable and ks = "[1]" and s = ?s]
  obtain out where o: "printed (snd (training_error_sweep exact_ops argsort_stable [1] ?s)) =
      printed ?s @ out"
    "printed (snd (training_error_sweep exact_ops argsort_stable [1]
        (snd (training_error_sweep exact_ops argsort_stable [1] ?s)))) = printed ?s @ out @ out"
    by blast
  have "printed (snd (training_error_sweep exact_ops argsort_stable [1] ?s)) = [Header, Row 1 (Some 0)]"
    by (simp add: cell_eval KNN_eval)
  with o(1) have "out = [Header, Row 1 (Some 0)]" by simp
  with o(2) show ?thesis by simp
qed

section \<open>The reported classification error\<close>

lemma wf_array_row: "wf_array x \<Longrightarrow> m < length (rows x) \<Longrightarrow> length (rows x ! m) = ncols x"
  by (simp add: wf_array_def list_all_length)

lemma KNN_row_returns:
  assumes "is_argsort A" and "wf_array x" and "y \<noteq> []" and "length y = length (rows x)"
    and "m < length (rows x)"
  shows "\<exists>p. KNN fl A x y (rows x ! m) k = Inr p"
proof -
  have "broadcast_ok (ncols x) (length (rows x ! m))"
    using wf_array_row[OF assms(2,5)] by (simp add: broadcast_ok_def)
  from KNN_returns[OF assms(1) this assms(3), where fl = fl and K = k] assms(4) show ?thesis by auto
qed

lemma mismatches_card:
  assumes "length p = length y"
  shows "mismatches y p = card {m. m < length y \<and> y ! m \<noteq> p ! m}"
proof -
  have "mismatches y p = card {i. i < length (zip y p) \<and> (\<lambda>(a, b). a \<noteq> b) (zip y p ! i)}"
    unfolding mismatches_def by (rule length_filter_conv_card)
  also have "{i. i < length (zip y p) \<and> (\<lambda>(a, b). a \<noteq> b) (zip y p ! i)} =
             {m. m < length y \<and> y ! m \<noteq> p ! m}"
    using assms by auto
  finally show ?thesis .
qed

lemma mismatches_le: "mismatches y p \<le> length y"
proof -
  have "mismatches y p \<le> length (zip y p)" unfolding mismatches_def by (rule length_filter_le)
  then show ?thesis by simp
qed


lemma error_sweep_single:
  assumes "is_argsort A" and "wf_array (x_training_selected s)" and "y_training s \<noteq> []"
    and "length (y_training s) = length (rows (x_training_selected s))"
    and "g_N s = length (y_training s)"
  shows "\<exists>s'. error_sweep fl A [k] s = (None, s') \<and>
           y_prediction s' =
             map (predicted fl A (x_training_selected s) (y_training s) k)
               [0..<length (y_training s)] \<and>
           classification_error s' =
             true_divide (mismatches (y_training s) (y_prediction s')) (length (y_training s)) \<and>
           printed s' = printed s @ [Row k (classification_error s')]"
proof -
  let ?x = "x_training_selected s" and ?y = "y_training s"
  let ?s2 = "s\<lparr>g_K := k, y_prediction := replicate (g_N s) 0\<rparr>"
  have "\<forall>m \<in> set [0..<g_N s]. m < length (rows (x_training_selected ?s2)) \<and>
             (\<exists>p. KNN fl A (x_training_selected ?s2) (y_training ?s2)
                    (rows (x_training_selected ?s2) ! m) (g_K ?s2) = Inr p)"
    using KNN_row_returns[OF assms(1,2,3,4), where fl = fl and k = k] assms(4,5) by simp
  from prediction_loop_ok[OF this] obtain s3 where
    pl: "prediction_loop fl A [0..<g_N s] ?s2 = (None, s3)"
    and yp: "y_prediction s3 =
             map (\<lambda>i. if i \<in> set [0..<g_N s] then predicted fl A ?x ?y k i
                       else replicate (g_N s) 0 ! i) [0..<g_N s]"
    by auto
  have yp': "y_prediction s3 = map (predicted fl A ?x ?y k) [0..<length ?y]"
    unfolding yp assms(5) by (rule map_cong) auto
  from prediction_loop_frame[OF pl]
  have fr: "y_training s3 = ?y" "g_N s3 = g_N s" "g_K s3 = k" "printed s3 = printed s"
    by simp_all
  let ?ce = "true_divide (mismatches (y_training s3) (y_prediction s3)) (g_N s3)"
  let ?s5 = "s3\<lparr>classification_error := ?ce, printed := printed s3 @ [Row (g_K s3) ?ce]\<rparr>"
  have "error_sweep fl A [k] s = error_sweep fl A [] ?s5"
    using pl by (intro error_sweep_step) simp
  then have "error_sweep fl A [k] s = (None, ?s5)" by simp
  moreover have "y_prediction ?s5 = map (predicted fl A ?x ?y k) [0..<length ?y]"
    using yp' by simp
  moreover have "classification_error ?s5 =
      true_divide (mismatches ?y (y_prediction ?s5)) (length ?y)"
    using fr assms(5) by simp
  moreover have "printed ?s5 = printed s @ [Row k (classification_error ?s5)]"
    using fr by simp
  ultimately show ?thesis by blast
qed

lemma training_error_sweep_single:
  assumes "is_argsort A" and "wf_array (x_training_selected s)" and "y_training s \<noteq> []"
    and "length (y_training s) = length (rows (x_training_selected s))"
  shows "\<exists>s'. training_error_sweep fl A [k] s = (None, s') \<and>
           y_prediction s' =
             map (predicted fl A (x_training_selected s) (y_training s) k)
               [0..<length (y_training s)] \<and>
           classification_error s' =
             true_divide (mismatches (y_training s) (y_prediction s')) (length (y_training s)) \<and>
           printed s' = printed s @ [Header, Row k (classification_error s')]"
proof -
  let ?s0 = "s\<lparr>g_N := length (y_training s), printed := printed s @ [Header]\<rparr>"
  have "\<exists>s'. error_sweep fl A [k] ?s0 = (None, s') \<and>
           y_prediction s' =
             map (predicted fl A (x_training_selected ?s0) (y_training ?s0) k)
               [0..<length (y_training ?s0)] \<and>
           classification_error s' =
             true_divide (mismatches (y_training ?s0) (y_prediction s'))
               (length (y_training ?s0)) \<and>
           printed s' = printed ?s0 @ [Row k (classification_error s')]"
    by (rule error_sweep_single) (simp_all add: assms)
  moreover have "training_error_sweep fl A [k] s = error_sweep fl A [k] ?s0"
    by (simp add: training_error_sweep_def Let_def)
  ultimately show ?thesis by auto
qed

text \<open>
  Claim C6. On a non-empty labelled dataset the evaluation for one \<open>K\<close> raises nothing;
  the classification error it stores and prints is the number of examples whose
  prediction (the result of \<^verbatim>\<open>KNN\<close> with the example's own row as the query) differs
  from the example's label, divided by the number of examples, and lies between 0 and 1.
\<close>

theorem classification_error_fraction:
  assumes "is_argsort A" and "wf_array (x_training_selected s)" and "y_training s \<noteq> []"
    and "length (y_training s) = length (rows (x_training_selected s))"
  shows "\<exists>s' e. training_error_sweep fl A [k] s = (None, s') \<and>
           classification_error s' = Some e \<and>
           printed s' = printed s @ [Header, Row k (Some e)] \<and>
           e = real (card {m. m < length (y_training s) \<and>
                     KNN fl A (x_training_selected s) (y_training s)
                       (rows (x_training_selected s) ! m) k \<noteq> Inr (y_training s ! m)})
               / real (length (y_training s)) \<and>
           0 \<le> e \<and> e \<le> 1"
proof -
  let ?x = "x_training_selected s" and ?y = "y_training s"
  let ?p = "map (predicted fl A ?x ?y k) [0..<length ?y]"
  from training_error_sweep_single[OF assms, where fl = fl and k = k] obtain s' where
    run: "training_error_sweep fl A [k] s = (None, s')"
    and yp: "y_prediction s' = ?p"
    and ce: "classification_error s' = true_divide (mismatches ?y (y_prediction s')) (length ?y)"
    and pr: "printed s' = printed s @ [Header, Row k (classification_error s')]"
    by blast
  let ?e = "real (mismatches ?y ?p) / real (length ?y)"
  have n0: "length ?y \<noteq> 0" using assms(3) by simp
  have ce': "classification_error s' = Some ?e" using ce yp n0 by (simp add: true_divide_def)
  have "{m. m < length ?y \<and> ?y ! m \<noteq> ?p ! m} =
        {m. m < length ?y \<and> KNN fl A ?x ?y (rows ?x ! m) k \<noteq> Inr (?y ! m)}"
  proof (rule Collect_cong, rule conj_cong[OF refl])
    fix m assume m: "m < length ?y"
    then have "m < length (rows ?x)" using assms(4) by simp
    from KNN_row_returns[OF assms(1,2,3,4) this, where fl = fl and k = k] obtain p where
      p: "KNN fl A ?x ?y (rows ?x ! m) k = Inr p" by blast
    then have "?p ! m = p" using m by (simp add: predicted_def)
    with p show "(?y ! m \<noteq> ?p ! m) = (KNN fl A ?x ?y (rows ?x ! m) k \<noteq> Inr (?y ! m))" by auto
  qed
  then have cnt: "mismatches ?y ?p =
      card {m. m < length ?y \<and> KNN fl A ?x ?y (rows ?x ! m) k \<noteq> Inr (?y ! m)}"
    using mismatches_card[of ?p ?y] by simp
  have "0 \<le> ?e" by simp
  moreover have "?e \<le> 1" using mismatches_le[of ?y ?p] n0 by simp
  ultimately show ?thesis using run ce' pr cnt by auto
qed

theorem classification_error_fraction_witness:
  "training_error_sweep exact_ops argsort_stable [3]
      \<lparr>x_training_selected = \<lparr>ncols = 1, rows = [[0], [1], [2]]\<rparr>, y_training = [1, 0, 0],
       g_x_q = [], g_N = 0, g_K = 0, g_n = 0, y_prediction = [],
       classification_error = None, printed = []\<rparr> =
    (None,
      \<lparr>x_training_selected = \<lparr>ncols = 1, rows = [[0], [1], [2]]\<rparr>, y_training = [1, 0, 0],
       g_x_q = [2], g_N = 3, g_K = 3, g_n = 2, y_prediction = [0, 0, 0],
       classification_error = Some (1 / 3), printed = [Header, Row 3 (Some (1 / 3))]\<rparr>)"
proof -
  let ?s = "\<lparr>x_training_selected = \<lparr>ncols = 1, rows = [[0], [1], [2]]\<rparr>,
       y_training = [1, 0, 0], g_x_q = [], g_N = 0, g_K = 0, g_n = 0, y_prediction = [],
       classification_error = None, printed = []\<rparr>"
  have "is_argsort argsort_stable" by (rule argsort_stable_is_argsort)
  moreover have "wf_array (x_training_selected ?s)" by (simp add: wf_array_def)
  moreover have "y_training ?s \<noteq> []" by simp
  moreover have "length (y_training ?s) = length (rows (x_training_selected ?s))" by simp
  ultimately have "\<exists>s' e. training_error_sweep exact_ops argsort_stable [3] ?s = (None, s') \<and>
           classification_error s' = Some e \<and>
           printed s' = printed ?s @ [Header, Row 3 (Some e)] \<and>
           e = real (card {m. m < length (y_training ?s) \<and>
                     KNN exact_ops argsort_stable (x_training_selected ?s) (y_training ?s)
                       (rows (x_training_selected ?s) ! m) 3 \<noteq> Inr (y_training ?s ! m)})
               / real (length (y_training ?s)) \<and>
           0 \<le> e \<and> e \<le> 1"
    by (rule classification_error_fraction)
  moreover have "training_error_sweep exact_ops argsort_stable [3] ?s =
    (None,
      \<lparr>x_training_selected = \<lparr>ncols = 1, rows = [[0], [1], [2]]\<rparr>, y_training = [1, 0, 0],
       g_x_q = [2], g_N = 3, g_K = 3, g_n = 2, y_prediction = [0, 0, 0],
       classification_error = Some (1 / 3), printed = [Header, Row 3 (Some (1 / 3))]\<rparr>)"
    by (simp add: cell_eval KNN_eval)
  ultimately show ?thesis by simp
qed

section \<open>Training error of the nearest-neighbour rule\<close>




lemma sum_squares_zero_iff:
  assumes "length r = length q"
  shows "sum_list (map (\<lambda>v. v ^ 2) (map2 (\<lambda>a b. a - b) r q)) = (0::real) \<longleftrightarrow> r = q"
proof -
  have "sum_list (map (\<lambda>v. v ^ 2) (map2 (\<lambda>a b. a - b) r q)) = 0 \<longleftrightarrow>
        (\<forall>v \<in> set (map (\<lambda>v. v ^ 2) (map2 (\<lambda>a b. a - b) r q)). v = 0)"
    by (rule sum_list_nonneg_eq_0_iff) auto
  also have "\<dots> \<longleftrightarrow> (\<forall>(a, b) \<in> set (zip r q). a = b)" by auto
  also have "\<dots> \<longleftrightarrow> r = q" using assms by (simp add: list_eq_iff_zip_eq)
  finally show ?thesis .
qed

lemma no_zero_distance_iff:
  "no_zero_distance fl x \<longleftrightarrow>
     (\<forall>m < length (rows x). \<forall>j < length (rows x).
        j \<noteq> m \<longrightarrow> 0 < row_distance fl (rows x ! j) (rows x ! m))"
proof
  assume a: "no_zero_distance fl x"
  show "\<forall>m < length (rows x). \<forall>j < length (rows x).
        j \<noteq> m \<longrightarrow> 0 < row_distance fl (rows x ! j) (rows x ! m)"
  proof (intro allI impI)
    fix m j assume m: "m < length (rows x)" and j: "j < length (rows x)" and ne: "j \<noteq> m"
    have mm: "m \<in> set [0..<length (rows x)]" and jj: "j \<in> set [0..<length (rows x)]"
      using m j by simp_all
    from a have "\<forall>m \<in> set [0..<length (rows x)]. \<forall>j \<in> set [0..<length (rows x)].
        j = m \<or> 0 < row_distance fl (rows x ! j) (rows x ! m)"
      unfolding no_zero_distance_def list_all_iff .
    from bspec[OF bspec[OF this mm] jj] ne
    show "0 < row_distance fl (rows x ! j) (rows x ! m)" by blast
  qed
next
  assume "\<forall>m < length (rows x). \<forall>j < length (rows x).
        j \<noteq> m \<longrightarrow> 0 < row_distance fl (rows x ! j) (rows x ! m)"
  then have "\<forall>m \<in> set [0..<length (rows x)]. \<forall>j \<in> set [0..<length (rows x)].
        j = m \<or> 0 < row_distance fl (rows x ! j) (rows x ! m)"
    by (metis atLeastLessThan_iff set_upt)
  then show "no_zero_distance fl x"
    unfolding no_zero_distance_def list_all_iff .
qed

lemma no_zero_distance_exact:
  assumes "wf_array x" and "distinct (rows x)"
  shows "no_zero_distance exact_ops x"
  unfolding no_zero_distance_iff
proof (intro allI impI)
  fix m j assume m: "m < length (rows x)" and j: "j < length (rows x)" and ne: "j \<noteq> m"
  have len: "length (rows x ! j) = length (rows x ! m)"
    using wf_array_row[OF assms(1) j] wf_array_row[OF assms(1) m] by simp
  have "rows x ! j \<noteq> rows x ! m"
    using nth_eq_iff_index_eq[OF assms(2) j m] ne by simp
  then have "sum_list (map (\<lambda>v. v ^ 2) (map2 (\<lambda>a b. a - b) (rows x ! j) (rows x ! m))) \<noteq> 0"
    using sum_squares_zero_iff[OF len] by simp
  moreover have "0 \<le> sum_list (map (\<lambda>v. v ^ 2) (map2 (\<lambda>a b. a - b) (rows x ! j) (rows x ! m)))"
    by (rule sum_list_nonneg) auto
  ultimately
  have "0 < sum_list (map (\<lambda>v. v ^ 2) (map2 (\<lambda>a b. a - b) (rows x ! j) (rows x ! m)))"
    by simp
  then show "0 < row_distance exact_ops (rows x ! j) (rows x ! m)"
    using len by (simp add: row_distance_def exact_ops_def sub_row_def)
qed






end
